theory Spec2Isabelle
  imports Complex_Main
begin

section \<open>The default NumPy vector and transfer of OpenMDAO\<close>

text \<open>
  This theory embeds \<^verbatim>\<open>openmdao/vectors/default_vector.py\<close>: the class
  \<^verbatim>\<open>DefaultTransfer\<close> (the indexed transfer between two vectors) and the class
  \<^verbatim>\<open>DefaultVector\<close> (the partitioned array store).

  NumPy arrays are mutable objects that may share memory (a slice is a view), and the
  source both builds views (\<^verbatim>\<open>_extract_data\<close>) and breaks them (\<^verbatim>\<open>_clone_data\<close>).
  The model therefore has an explicit heap: array memory is a function from cells to
  values, an array object is a window (base address, offset, length) onto that memory,
  and every method takes the heap and returns the new one.

  Array elements are \<^verbatim>\<open>float64\<close> in the source; they are real numbers here, so
  rounding is not modelled. Indices are Python integers: a negative index counts from
  the end and an index out of range raises \<^verbatim>\<open>IndexError\<close>.
\<close>

subsection \<open>Errors\<close>

datatype error = IndexError | KeyError | ValueError

text \<open>Running a loop body over a list stops at the first exception.\<close>

fun for_each :: "('a \<Rightarrow> 's \<Rightarrow> error + 's) \<Rightarrow> 'a list \<Rightarrow> 's \<Rightarrow> error + 's" where
  "for_each f [] s = Inr s"
| "for_each f (x # xs) s = (case f x s of Inl e \<Rightarrow> Inl e | Inr s' \<Rightarrow> for_each f xs s')"

subsection \<open>Arrays, vectors and the heap\<close>

text \<open>
  A one-dimensional \<^verbatim>\<open>ndarray\<close>: the elements are the cells
  \<open>(base, off), \<dots>, (base, off + len - 1)\<close> of the memory. Two arrays with the same
  base and intersecting ranges share those elements.
\<close>

record ndarray =
  base :: nat
  off :: nat
  len :: nat

text \<open>
  A \<^verbatim>\<open>Vector\<close> object. The base class (\<^verbatim>\<open>vector.py\<close>) is not part of the source
  file; of its attributes the methods below read \<^verbatim>\<open>_data\<close> (the list of arrays, one
  for each variable set), \<^verbatim>\<open>_global_vector\<close> (a reference to a vector object) and
  \<^verbatim>\<open>_iproc\<close>.
\<close>

record vector =
  data :: "ndarray list"
  global_vector :: nat
  iproc :: int

text \<open>
  The heap: array memory, the next unused base address, and the vector objects by
  reference.
\<close>

record heap =
  mem :: "nat \<times> nat \<Rightarrow> real"
  nxt :: nat
  vecs :: "nat \<Rightarrow> vector"

definition cell :: "ndarray \<Rightarrow> nat \<Rightarrow> nat \<times> nat" where
  "cell a i = (base a, off a + i)"

definition peek :: "heap \<Rightarrow> ndarray \<Rightarrow> nat \<Rightarrow> real" where
  "peek h a i = mem h (cell a i)"

definition poke :: "heap \<Rightarrow> ndarray \<Rightarrow> nat \<Rightarrow> real \<Rightarrow> heap" where
  "poke h a i v = h\<lparr>mem := (mem h)(cell a i := v)\<rparr>"

definition contents :: "heap \<Rightarrow> ndarray \<Rightarrow> real list" where
  "contents h a = map (peek h a) [0..<len a]"

text \<open>\<^verbatim>\<open>v._global_vector._data\<close> for the vector object at reference \<open>v\<close>.\<close>

definition global_data :: "heap \<Rightarrow> nat \<Rightarrow> ndarray list" where
  "global_data h v = data (vecs h (global_vector (vecs h v)))"

text \<open>Two arrays overlap when they have an element in common.\<close>

definition overlap :: "ndarray \<Rightarrow> ndarray \<Rightarrow> bool" where
  "overlap a b \<longleftrightarrow>
     base a = base b \<and> 0 < len a \<and> 0 < len b \<and>
     off a < off b + len b \<and> off b < off a + len a"


text \<open>
  The buffers of a vector are allocated when their base addresses are below the next
  unused one. A vector has the layout of another when the other has a buffer of the same
  length for each of its sets, and its sets are apart when the buffer of a set overlaps
  no buffer of another set, of either vector.
\<close>

definition allocated :: "heap \<Rightarrow> ndarray list \<Rightarrow> bool" where
  "allocated h ds \<longleftrightarrow> (\<forall>a \<in> set ds. base a < nxt h)"

definition same_lengths :: "ndarray list \<Rightarrow> ndarray list \<Rightarrow> bool" where
  "same_lengths as bs \<longleftrightarrow>
     length as \<le> length bs \<and> (\<forall>i < length as. len (bs ! i) = len (as ! i))"

definition sets_apart :: "ndarray list \<Rightarrow> ndarray list \<Rightarrow> bool" where
  "sets_apart as bs \<longleftrightarrow>
     (\<forall>i < length as. \<forall>j < length as. i \<noteq> j \<longrightarrow>
        \<not> overlap (as ! i) (as ! j) \<and> \<not> overlap (as ! i) (bs ! j))"

subsection \<open>Indexing\<close>

text \<open>
  An integer index into a sequence of length \<open>n\<close>: \<open>idx n i\<close> is the position it
  addresses when it is in range, and \<open>np_index\<close> is the checked lookup of Python lists
  and NumPy arrays.
\<close>

definition idx :: "nat \<Rightarrow> int \<Rightarrow> nat" where
  "idx n i = (if i < 0 then nat (i + int n) else nat i)"

definition np_index :: "nat \<Rightarrow> int \<Rightarrow> error + nat" where
  "np_index n i = (if - int n \<le> i \<and> i < int n then Inr (idx n i) else Inl IndexError)"

definition list_get :: "'a list \<Rightarrow> int \<Rightarrow> error + 'a" where
  "list_get xs i =
     (case np_index (length xs) i of Inl e \<Rightarrow> Inl e | Inr p \<Rightarrow> Inr (xs ! p))"

text \<open>The positions addressed by an index array, or \<^verbatim>\<open>IndexError\<close>.\<close>

fun check_inds :: "nat \<Rightarrow> int list \<Rightarrow> error + nat list" where
  "check_inds n [] = Inr []"
| "check_inds n (i # is) =
     (case np_index n i of Inl e \<Rightarrow> Inl e
      | Inr p \<Rightarrow> (case check_inds n is of Inl e \<Rightarrow> Inl e | Inr ps \<Rightarrow> Inr (p # ps)))"

text \<open>\<^verbatim>\<open>a[inds]\<close> with an integer index array: a fresh array of the addressed values.\<close>

definition take_inds :: "heap \<Rightarrow> ndarray \<Rightarrow> int list \<Rightarrow> error + real list" where
  "take_inds h a inds =
     (case check_inds (len a) inds of Inl e \<Rightarrow> Inl e | Inr ps \<Rightarrow> Inr (map (peek h a) ps))"

text \<open>
  A value array of length \<open>n\<close> or of length one (which is repeated) fits an index array
  of length \<open>n\<close>; NumPy raises \<^verbatim>\<open>ValueError\<close> for any other length.
\<close>

definition broadcast :: "nat \<Rightarrow> real list \<Rightarrow> error + real list" where
  "broadcast n vs =
     (if length vs = n then Inr vs
      else if length vs = 1 then Inr (replicate n (hd vs))
      else Inl ValueError)"

text \<open>
  \<^verbatim>\<open>a[inds] = vs\<close>: the values are stored one index after the other, so the last
  value stored at a repeated index remains.
\<close>

definition set_inds :: "heap \<Rightarrow> ndarray \<Rightarrow> int list \<Rightarrow> real list \<Rightarrow> error + heap" where
  "set_inds h a inds vs =
     (case broadcast (length inds) vs of Inl e \<Rightarrow> Inl e
      | Inr ws \<Rightarrow>
          (case check_inds (len a) inds of Inl e \<Rightarrow> Inl e
           | Inr ps \<Rightarrow> Inr (fold (\<lambda>(p, w) h. poke h a p w) (zip ps ws) h)))"

text \<open>
  \<^verbatim>\<open>numpy.add.at(a, inds, vs)\<close>: the unbuffered \<open>a[inds] += vs\<close>, one index after the
  other, each addition reading the element as the previous ones left it.
\<close>

definition add_at :: "heap \<Rightarrow> ndarray \<Rightarrow> int list \<Rightarrow> real list \<Rightarrow> error + heap" where
  "add_at h a inds vs =
     (case check_inds (len a) inds of Inl e \<Rightarrow> Inl e
      | Inr ps \<Rightarrow>
          (case broadcast (length inds) vs of Inl e \<Rightarrow> Inl e
           | Inr ws \<Rightarrow> Inr (fold (\<lambda>(p, w) h. poke h a p (peek h a p + w)) (zip ps ws) h)))"

subsection \<open>DefaultTransfer\<close>

text \<open>
  The transfer object holds two dictionaries from the key
  \<^verbatim>\<open>(ip_iset, op_iset)\<close> to an index array. \<^verbatim>\<open>_ip_inds\<close> is iterated, so it is an
  association list in iteration order with one entry for each key (the loop visits the
  entry and \<^verbatim>\<open>self._ip_inds[key]\<close> is its value); \<^verbatim>\<open>_op_inds\<close> is only looked up.
\<close>

record transfer =
  ip_inds :: "((int \<times> int) \<times> int list) list"
  op_inds :: "((int \<times> int) \<times> int list) list"

text \<open>The body of the loop of the forward branch, for one entry of \<^verbatim>\<open>_ip_inds\<close>.\<close>

definition fwd_step ::
  "transfer \<Rightarrow> nat \<Rightarrow> nat \<Rightarrow> (int \<times> int) \<times> int list \<Rightarrow> heap \<Rightarrow> error + heap" where
  "fwd_step tr ip_vec op_vec entry h =
     (case entry of ((ip_iset, op_iset), ip_ix) \<Rightarrow>
        if length ip_ix > 0 then
          (case map_of (op_inds tr) (ip_iset, op_iset) of None \<Rightarrow> Inl KeyError
           | Some op_ix \<Rightarrow>
          (case list_get (global_data h op_vec) op_iset of Inl e \<Rightarrow> Inl e
           | Inr op_arr \<Rightarrow>
          (case take_inds h op_arr op_ix of Inl e \<Rightarrow> Inl e
           | Inr tmp \<Rightarrow>
          (case list_get (global_data h ip_vec) ip_iset of Inl e \<Rightarrow> Inl e
           | Inr ip_arr \<Rightarrow> set_inds h ip_arr ip_ix tmp))))
        else Inr h)"

text \<open>The body of the loop of the reverse branch.\<close>

definition rev_step ::
  "transfer \<Rightarrow> nat \<Rightarrow> nat \<Rightarrow> (int \<times> int) \<times> int list \<Rightarrow> heap \<Rightarrow> error + heap" where
  "rev_step tr ip_vec op_vec entry h =
     (case entry of ((ip_iset, op_iset), ip_ix) \<Rightarrow>
        if length ip_ix > 0 then
          (case map_of (op_inds tr) (ip_iset, op_iset) of None \<Rightarrow> Inl KeyError
           | Some op_ix \<Rightarrow>
          (case list_get (global_data h ip_vec) ip_iset of Inl e \<Rightarrow> Inl e
           | Inr ip_arr \<Rightarrow>
          (case take_inds h ip_arr ip_ix of Inl e \<Rightarrow> Inl e
           | Inr tmp \<Rightarrow>
          (case list_get (global_data h op_vec) op_iset of Inl e \<Rightarrow> Inl e
           | Inr op_arr \<Rightarrow> add_at h op_arr op_ix tmp))))
        else Inr h)"

text \<open>
  \<^verbatim>\<open>DefaultTransfer.__call__(self, ip_vec, op_vec, mode)\<close>. There is no \<^verbatim>\<open>else\<close>
  after the two branches: any other mode falls through.
\<close>

definition call :: "transfer \<Rightarrow> heap \<Rightarrow> nat \<Rightarrow> nat \<Rightarrow> string \<Rightarrow> error + heap" where
  "call tr h ip_vec op_vec mode =
     (if mode = ''fwd'' then for_each (fwd_step tr ip_vec op_vec) (ip_inds tr) h
      else if mode = ''rev'' then for_each (rev_step tr ip_vec op_vec) (ip_inds tr) h
      else Inr h)"


subsection \<open>DefaultVector\<close>

text \<open>
  \<^verbatim>\<open>a *= vs\<close> on an array: every element is multiplied in place by the matching
  value; the array object stays the same.
\<close>

definition imul :: "heap \<Rightarrow> ndarray \<Rightarrow> real list \<Rightarrow> error + heap" where
  "imul h a vs =
     (case broadcast (len a) vs of Inl e \<Rightarrow> Inl e
      | Inr ws \<Rightarrow> Inr (fold (\<lambda>(p, w) h. poke h a p (peek h a p * w)) (zip [0..<len a] ws) h))"

text \<open>
  \<^verbatim>\<open>add_scal_vec(self, val, vec)\<close>: for each set,
  \<^verbatim>\<open>self._data[iset] *= val * vec._data[iset]\<close>. The right-hand side is a fresh array
  computed before the update.
\<close>

definition add_scal_vec_step :: "nat \<Rightarrow> real \<Rightarrow> nat \<Rightarrow> nat \<Rightarrow> heap \<Rightarrow> error + heap" where
  "add_scal_vec_step self val vec iset h =
     (case list_get (data (vecs h vec)) (int iset) of Inl e \<Rightarrow> Inl e
      | Inr b \<Rightarrow> imul h (data (vecs h self) ! iset) (map (\<lambda>y. val * y) (contents h b)))"

definition add_scal_vec :: "heap \<Rightarrow> nat \<Rightarrow> real \<Rightarrow> nat \<Rightarrow> error + heap" where
  "add_scal_vec h self val vec =
     for_each (add_scal_vec_step self val vec) [0..<length (data (vecs h self))] h"


text \<open>\<^verbatim>\<open>numpy.array(a)\<close>: a new array at a fresh base address holding a copy of \<open>a\<close>.\<close>

definition np_array :: "heap \<Rightarrow> ndarray \<Rightarrow> heap \<times> ndarray" where
  "np_array h a =
     (h\<lparr>mem := (\<lambda>(b, p). if b = nxt h \<and> p < len a then mem h (cell a p) else mem h (b, p)),
        nxt := Suc (nxt h)\<rparr>,
      \<lparr>base = nxt h, off = 0, len = len a\<rparr>)"


text \<open>
  \<^verbatim>\<open>_clone_data(self)\<close>: each entry of \<^verbatim>\<open>self._data\<close> is replaced by a copy of the
  array it held.
\<close>

definition clone_step :: "nat \<Rightarrow> nat \<Rightarrow> heap \<Rightarrow> heap" where
  "clone_step self iset h =
     (let d = data (vecs h self) ! iset;
          (h1, c) = np_array h d
      in h1\<lparr>vecs := (vecs h1)(self := (vecs h1 self)\<lparr>data := (data (vecs h1 self))[iset := c]\<rparr>)\<rparr>)"

definition clone_data :: "heap \<Rightarrow> nat \<Rightarrow> heap" where
  "clone_data h self = fold (clone_step self) [0..<length (data (vecs h self))] h"






subsection \<open>Describing a transfer\<close>

text \<open>
  The definitions of this subsection do not come from the source: they say, in the
  words of the specification, which elements a transfer connects.

  \<open>addressed ds iset inds\<close> are the memory cells of the elements of buffer \<open>iset\<close> of a
  store that the index array \<open>inds\<close> addresses; \<open>store_cells ds\<close> are all the cells of
  a store's buffers.
\<close>

definition addressed :: "ndarray list \<Rightarrow> int \<Rightarrow> int list \<Rightarrow> (nat \<times> nat) list" where
  "addressed ds iset inds =
     (let a = ds ! idx (length ds) iset in map (\<lambda>i. cell a (idx (len a) i)) inds)"

definition store_cells :: "ndarray list \<Rightarrow> (nat \<times> nat) set" where
  "store_cells ds = {cell a i | a i. a \<in> set ds \<and> i < len a}"














subsection \<open>Example states\<close>

text \<open>
  \<open>stores xss yss\<close> is a heap with two vectors, each its own global vector: vector \<open>0\<close>
  has one buffer for each list of \<open>xss\<close>, vector \<open>1\<close> one for each list of \<open>yss\<close>, every
  buffer an array of its own.
\<close>

definition buffers :: "nat \<Rightarrow> real list list \<Rightarrow> ndarray list" where
  "buffers n xss = map (\<lambda>(i, xs). \<lparr>base = i, off = 0, len = length xs\<rparr>) (enumerate n xss)"

definition stores :: "real list list \<Rightarrow> real list list \<Rightarrow> heap" where
  "stores xss yss =
     \<lparr>mem = (\<lambda>(b, p). if b < length (xss @ yss) \<and> p < length ((xss @ yss) ! b)
                        then (xss @ yss) ! b ! p else 0),
      nxt = length (xss @ yss),
      vecs = (\<lambda>v. if v = 0 then \<lparr>data = buffers 0 xss, global_vector = 0, iproc = 0\<rparr>
                   else \<lparr>data = buffers (length xss) yss, global_vector = 1, iproc = 0\<rparr>)\<rparr>"

text \<open>The contents of a buffer of a vector after a call, or the exception.\<close>

definition buffer_after :: "error + heap \<Rightarrow> nat \<Rightarrow> nat \<Rightarrow> error + real list" where
  "buffer_after r v iset =
     (case r of Inl e \<Rightarrow> Inl e | Inr h \<Rightarrow> Inr (contents h (data (vecs h v) ! iset)))"

text \<open>An index map with the single key \<open>(0, 0)\<close>.\<close>

definition index_map :: "int list \<Rightarrow> int list \<Rightarrow> transfer" where
  "index_map ip_ix op_ix = \<lparr>ip_inds = [((0, 0), ip_ix)], op_inds = [((0, 0), op_ix)]\<rparr>"

text \<open>
  A vector with the buffer \<open>[1, 2, 3]\<close> and, as vector \<open>1\<close>, a sub-vector of it whose
  buffer is the view on the last two elements.
\<close>

definition sub_vector :: heap where
  "sub_vector =
     (stores [[1, 2, 3]] [])
       \<lparr>vecs := (vecs (stores [[1, 2, 3]] []))
                  (1 := \<lparr>data = [\<lparr>base = 0, off = 1, len = 2\<rparr>], global_vector = 0, iproc = 0\<rparr>)\<rparr>"
section \<open>Properties\<close>

subsection \<open>Loops\<close>

lemma for_each_append:
  "for_each f (xs @ ys) s = (case for_each f xs s of Inl e \<Rightarrow> Inl e | Inr s' \<Rightarrow> for_each f ys s')"
  by (induction xs arbitrary: s) (auto split: sum.splits)


subsection \<open>Memory updates\<close>

lemma poke_simps [simp]:
  "mem (poke h a i v) = (mem h)(cell a i := v)"
  "nxt (poke h a i v) = nxt h"
  "vecs (poke h a i v) = vecs h"
  by (simp_all add: poke_def)










subsection \<open>Indices and cells\<close>









text \<open>Separate stores have no cell in common, and a buffer whose cells are kept is kept.\<close>

lemma overlap_cells:
  "i < len a \<Longrightarrow> j < len b \<Longrightarrow> cell a i = cell b j \<Longrightarrow> overlap a b"
  by (auto simp: cell_def overlap_def)


lemma contents_cong:
  "(\<And>i. i < len a \<Longrightarrow> mem h' (cell a i) = mem h (cell a i)) \<Longrightarrow> contents h' a = contents h a"
  by (simp add: contents_def peek_def)

lemma contents_kept:
  assumes "\<And>c. c \<notin> C \<Longrightarrow> mem h' c = mem h c" and "store_cells [a] \<inter> C = {}"
  shows "contents h' a = contents h a"
proof (rule contents_cong)
  fix i assume "i < len a"
  then have "cell a i \<in> store_cells [a]" by (auto simp: store_cells_def)
  with assms(2) have "cell a i \<notin> C" by auto
  then show "mem h' (cell a i) = mem h (cell a i)" by (rule assms(1))
qed

subsection \<open>One entry of the index map\<close>



subsection \<open>The whole loop\<close>

lemma store_cells_Nil [simp]: "store_cells [] = {}"
  by (simp add: store_cells_def)









section \<open>The transfer\<close>

text \<open>Unfolding these evaluates a call on a concrete state.\<close>

lemmas eval_defs = call_def rev_step_def fwd_step_def global_data_def stores_def buffers_def
  list_get_def np_index_def idx_def take_inds_def add_at_def set_inds_def broadcast_def
  peek_def poke_def cell_def buffer_after_def contents_def index_map_def






text \<open>
  Claim C5, as amended. The claim is that a mode other than \<^verbatim>\<open>'fwd'\<close> and \<^verbatim>\<open>'rev'\<close>
  raises an invalid-argument error. The method has no branch for such a mode: the call
  returns normally and leaves the heap, hence both stores, as it was.
\<close>

theorem other_mode_returns:
  assumes "mode \<noteq> ''fwd''" and "mode \<noteq> ''rev''"
  shows "call tr h ip_vec op_vec mode = Inr h"
  using assms by (simp add: call_def)

theorem other_mode_returns_witness:
  "''forward'' \<noteq> ''fwd'' \<and> ''forward'' \<noteq> ''rev''
   \<and> call (index_map [0] [0]) (stores [[1]] [[2]]) 0 1 ''forward'' = Inr (stores [[1]] [[2]])"
  using other_mode_returns[of "''forward''" "index_map [0] [0]" "stores [[1]] [[2]]" 0 1]
  by simp

text \<open>
  The call with the mode \<^verbatim>\<open>'bwd'\<close> is not an error, and both buffers hold afterwards
  what they held before.
\<close>

theorem other_mode_counterexample:
  "\<not> isl (call (index_map [0] [0]) (stores [[1]] [[2]]) 0 1 ''bwd'')
   \<and> buffer_after (call (index_map [0] [0]) (stores [[1]] [[2]]) 0 1 ''bwd'') 0 0 = Inr [1]
   \<and> buffer_after (call (index_map [0] [0]) (stores [[1]] [[2]]) 0 1 ''bwd'') 1 0 = Inr [2]"
  by (simp add: eval_defs)

text \<open>
  Claim C7, as amended. With the index array \<open>[0, 0, 1]\<close> on the input buffer
  \<open>[10, 20, 30]\<close> and \<open>[1, 2, 0]\<close> on the output buffer \<open>[a, b, c]\<close>, a reverse transfer
  adds 10 to element 1, 10 to element 2 and 20 to element 0 of the output buffer, as
  claimed. With the colliding output indices \<open>[1, 1, 0]\<close>, element 1 receives
  \<open>10 + 10\<close>, the value of input element 0 once for each of the two entries that read
  it, and element 0 receives 20: the contributions are accumulated, but their sum is 20
  and not the \<open>10 + 20\<close> of the claim.
\<close>

theorem reverse_example:
  "buffer_after (call (index_map [0, 0, 1] [1, 2, 0]) (stores [[10, 20, 30]] [[a, b, c]]) 0 1 ''rev'') 1 0
     = Inr [a + 20, b + 10, c + 10]
   \<and> buffer_after (call (index_map [0, 0, 1] [1, 1, 0]) (stores [[10, 20, 30]] [[a, b, c]]) 0 1 ''rev'') 1 0
     = Inr [a + 20, b + (10 + 10), c]"
  by (simp add: eval_defs upt_rec)

text \<open>
  From an output buffer of zeros, element 1 ends at 20 when \<open>[0, 0, 1]\<close> indexes the
  input buffer and \<open>[1, 1, 0]\<close> the output buffer, and at 10 when the two index arrays
  are taken the other way round; it is 30 in neither case.
\<close>

theorem reverse_example_counterexample:
  "buffer_after (call (index_map [0, 0, 1] [1, 1, 0]) (stores [[10, 20, 30]] [[0, 0, 0]]) 0 1 ''rev'') 1 0
     = Inr [20, 20, 0]
   \<and> buffer_after (call (index_map [1, 1, 0] [0, 0, 1]) (stores [[10, 20, 30]] [[0, 0, 0]]) 0 1 ''rev'') 1 0
     = Inr [40, 10, 0]"
  by (simp add: eval_defs upt_rec)

subsection \<open>What a call leaves unchanged\<close>





subsection \<open>Forward, then reverse\<close>

lemma length_addressed [simp]: "length (addressed ds iset inds) = length inds"
  by (simp add: addressed_def Let_def)






section \<open>The vector\<close>

subsection \<open>Scale and combine\<close>

lemma list_get_nat: "k < length xs \<Longrightarrow> list_get xs (int k) = Inr (xs ! k)"
  by (simp add: list_get_def np_index_def idx_def)

lemma fold_mul_mem:
  "mem (fold (\<lambda>(p, w) h. poke h a p (peek h a p * w)) pws h)
     = fold (\<lambda>(p, w) m. m(cell a p := m (cell a p) * w)) pws (mem h)"
  by (induction pws arbitrary: h) (auto simp: peek_def)

lemma fold_mul_frame:
  "nxt (fold (\<lambda>(p, w) h. poke h a p (peek h a p * w)) pws h) = nxt h"
  "vecs (fold (\<lambda>(p, w) h. poke h a p (peek h a p * w)) pws h) = vecs h"
  by (induction pws arbitrary: h) auto

text \<open>Multiplying the elements of an array one after the other by a list of values.\<close>

lemma fold_mul_cells:
  "fold (\<lambda>(p, w) m. m(cell a p := m (cell a p) * w)) (zip [0..<length ws] ws) m c
     = (if \<exists>p < length ws. c = cell a p then m c * ws ! (snd c - off a) else (m c :: real))"
proof (induction ws rule: rev_induct)
  case Nil
  then show ?case by simp
next
  case (snoc w ws)
  have z: "zip [0..<length (ws @ [w])] (ws @ [w]) = zip [0..<length ws] ws @ [(length ws, w)]"
    by simp
  show ?case
  proof (cases "c = cell a (length ws)")
    case True
    then have "\<not> (\<exists>p < length ws. c = cell a p)"
      by (auto simp: cell_def)
    with True snoc show ?thesis
      unfolding z by (auto simp: cell_def)
  next
    case False
    then have "(\<exists>p < length (ws @ [w]). c = cell a p) \<longleftrightarrow> (\<exists>p < length ws. c = cell a p)"
      by (auto simp: less_Suc_eq)
    with False snoc show ?thesis
      unfolding z by (auto simp: cell_def nth_append)
  qed
qed

lemma imul_ok:
  assumes "length vs = len a"
  shows "\<exists>h'. imul h a vs = Inr h' \<and> nxt h' = nxt h \<and> vecs h' = vecs h
           \<and> (\<forall>c. c \<notin> store_cells [a] \<longrightarrow> mem h' c = mem h c)
           \<and> contents h' a = map2 (\<lambda>x w. x * w) (contents h a) vs"
proof -
  let ?h' = "fold (\<lambda>(p, w) h. poke h a p (peek h a p * w)) (zip [0..<len a] vs) h"
  have 1: "imul h a vs = Inr ?h'"
    using assms by (simp add: imul_def broadcast_def)
  have m: "mem ?h' c = (if \<exists>p < len a. c = cell a p then mem h c * vs ! (snd c - off a) else mem h c)" for c
    unfolding fold_mul_mem using fold_mul_cells[of a vs "mem h" c] assms by simp
  have 2: "mem ?h' c = mem h c" if "c \<notin> store_cells [a]" for c
    using that by (auto simp: m store_cells_def)
  have p: "peek ?h' a i = peek h a i * vs ! i" if "i < len a" for i
  proof -
    have "\<exists>p < len a. cell a i = cell a p" using that by blast
    moreover have "snd (cell a i) - off a = i" by (simp add: cell_def)
    ultimately show ?thesis using m[of "cell a i"] by (simp add: peek_def)
  qed
  have "contents ?h' a = map2 (\<lambda>x w. x * w) (contents h a) vs"
    using assms by (intro nth_equalityI) (simp_all add: contents_def p)
  with 1 2 show ?thesis by (auto simp: fold_mul_frame)
qed

lemma store_cells_take_Suc:
  "k < length ds \<Longrightarrow> store_cells (take (Suc k) ds) = store_cells (take k ds) \<union> store_cells [ds ! k]"
  by (auto simp: store_cells_def take_Suc_conv_app_nth)

lemma store_cells_takeD:
  assumes "c \<in> store_cells (take k ds)"
  shows "\<exists>i. i < k \<and> i < length ds \<and> c \<in> store_cells [ds ! i]"
proof -
  from assms obtain a j where c: "c = cell a j" "a \<in> set (take k ds)" "j < len a"
    by (auto simp: store_cells_def)
  from c(2) obtain i where "i < length (take k ds)" "take k ds ! i = a"
    by (auto simp: in_set_conv_nth)
  then have "i < k" "i < length ds" "ds ! i = a" by auto
  with c show ?thesis by (auto simp: store_cells_def)
qed

lemma no_overlap_cells:
  "\<not> overlap a b \<Longrightarrow> store_cells [a] \<inter> store_cells [b] = {}"
  by (auto simp: store_cells_def dest: overlap_cells)

text \<open>The loop of \<open>add_scal_vec\<close> after the first \<open>k\<close> sets.\<close>

lemma add_scal_vec_prefix:
  assumes n: "length (data (vecs h self)) \<le> length (data (vecs h vec))"
    and eq: "\<forall>i < length (data (vecs h self)).
               len (data (vecs h vec) ! i) = len (data (vecs h self) ! i)"
    and ds: "\<forall>i < length (data (vecs h self)). \<forall>j < length (data (vecs h self)). i \<noteq> j \<longrightarrow>
               \<not> overlap (data (vecs h self) ! i) (data (vecs h self) ! j)
             \<and> \<not> overlap (data (vecs h self) ! i) (data (vecs h vec) ! j)"
    and k: "k \<le> length (data (vecs h self))"
  shows "\<exists>hk. for_each (add_scal_vec_step self val vec) [0..<k] h = Inr hk
           \<and> nxt hk = nxt h \<and> vecs hk = vecs h
           \<and> (\<forall>c. c \<notin> store_cells (take k (data (vecs h self))) \<longrightarrow> mem hk c = mem h c)
           \<and> (\<forall>i < k. contents hk (data (vecs h self) ! i)
                  = map2 (\<lambda>x y. x * (val * y)) (contents h (data (vecs h self) ! i))
                                                  (contents h (data (vecs h vec) ! i)))"
  using k
proof (induction k)
  case 0
  then show ?case by simp
next
  case (Suc k)
  let ?sd = "data (vecs h self)" and ?vd = "data (vecs h vec)"
  from Suc.prems have kl: "k < length ?sd" and kv: "k < length ?vd"
    using n by simp_all
  from Suc.IH kl obtain hk where
    run: "for_each (add_scal_vec_step self val vec) [0..<k] h = Inr hk"
    and fr: "nxt hk = nxt h" "vecs hk = vecs h"
    and kept: "\<And>c. c \<notin> store_cells (take k ?sd) \<Longrightarrow> mem hk c = mem h c"
    and fin: "\<And>i. i < k \<Longrightarrow> contents hk (?sd ! i)
                  = map2 (\<lambda>x y. x * (val * y)) (contents h (?sd ! i)) (contents h (?vd ! i))"
    by auto
  have away: "store_cells [b] \<inter> store_cells (take k ?sd) = {}"
    if "\<And>i. i < k \<Longrightarrow> \<not> overlap (?sd ! i) b" for b
  proof -
    have False if c: "c \<in> store_cells [b]" "c \<in> store_cells (take k ?sd)" for c
    proof -
      from store_cells_takeD[OF c(2)] obtain i where "i < k" "c \<in> store_cells [?sd ! i]"
        by blast
      with \<open>\<And>i. i < k \<Longrightarrow> \<not> overlap (?sd ! i) b\<close> c(1) show False
        using no_overlap_cells[of "?sd ! i" b] by blast
    qed
    then show ?thesis by blast
  qed
  have sk: "contents hk (?sd ! k) = contents h (?sd ! k)"
    by (rule contents_kept[where C = "store_cells (take k ?sd)"])
       (use kept away ds kl in auto)
  have vk: "contents hk (?vd ! k) = contents h (?vd ! k)"
    by (rule contents_kept[where C = "store_cells (take k ?sd)"])
       (use kept away ds kl in auto)
  have lv: "length (map (\<lambda>y. val * y) (contents hk (?vd ! k))) = len (?sd ! k)"
    using eq kl by (simp add: contents_def)
  from imul_ok[OF lv, of hk] obtain h' where
    im: "imul hk (?sd ! k) (map (\<lambda>y. val * y) (contents hk (?vd ! k))) = Inr h'"
    and fr': "nxt h' = nxt hk" "vecs h' = vecs hk"
    and kept': "\<And>c. c \<notin> store_cells [?sd ! k] \<Longrightarrow> mem h' c = mem hk c"
    and new: "contents h' (?sd ! k)
                = map2 (\<lambda>x w. x * w) (contents hk (?sd ! k))
                    (map (\<lambda>y. val * y) (contents hk (?vd ! k)))"
    by blast
  have step: "add_scal_vec_step self val vec k hk = Inr h'"
    using im kv by (simp add: add_scal_vec_step_def fr list_get_nat)
  have 1: "for_each (add_scal_vec_step self val vec) [0..<Suc k] h = Inr h'"
    using run step by (simp add: for_each_append)
  have 2: "mem h' c = mem h c" if "c \<notin> store_cells (take (Suc k) ?sd)" for c
    using that kept kept' by (simp add: store_cells_take_Suc[OF kl])
  have 3: "contents h' (?sd ! i)
             = map2 (\<lambda>x y. x * (val * y)) (contents h (?sd ! i)) (contents h (?vd ! i))"
    if "i < Suc k" for i
  proof (cases "i = k")
    case True
    show ?thesis
      unfolding True new sk vk by (simp add: zip_map2 split_def)
  next
    case False
    with that have i: "i < k" by simp
    have "contents h' (?sd ! i) = contents hk (?sd ! i)"
      by (rule contents_kept[where C = "store_cells [?sd ! k]"])
         (use kept' no_overlap_cells[of "?sd ! i" "?sd ! k"] ds kl i in auto)
    with fin[OF i] show ?thesis by simp
  qed
  from 1 2 3 fr fr' show ?case by auto
qed


text \<open>
  Claim C3. \<^verbatim>\<open>add_scal_vec\<close> (the scale-and-combine of the specification) multiplies:
  every buffer becomes, element by element, its old value times \<open>val\<close> times the value
  of the other vector, and not the old value plus \<open>val\<close> times the other value. When
  the other vector has a buffer of the same length for each set of this vector, and the
  buffer of a set shares no memory with the buffers of the other sets of either vector,
  the call returns and leaves exactly these products in every buffer. On the buffers
  \<open>[2, 5]\<close> and \<open>[3, 1]\<close> with \<open>val = 4\<close> the result is \<open>[24, 20]\<close>, where the additive
  update would give \<open>[14, 9]\<close>.
\<close>

theorem add_scal_vec_multiplies:
  assumes "same_lengths (data (vecs h self)) (data (vecs h vec))"
    and "sets_apart (data (vecs h self)) (data (vecs h vec))"
  shows "(\<exists>h'. add_scal_vec h self val vec = Inr h'
            \<and> data (vecs h' self) = data (vecs h self)
            \<and> (\<forall>iset < length (data (vecs h self)).
                  contents h' (data (vecs h self) ! iset)
                    = map2 (\<lambda>x y. x * (val * y)) (contents h (data (vecs h self) ! iset))
                                                    (contents h (data (vecs h vec) ! iset))))
    \<and> buffer_after (add_scal_vec (stores [[2, 5]] [[3, 1]]) 0 4 1) 0 0 = Inr [2 * (4 * 3), 5 * (4 * 1)]
    \<and> [2 * (4 * 3), 5 * (4 * 1)] \<noteq> [2 + 4 * 3, 5 + 4 * (1::real)]"
proof -
  from assms have n: "length (data (vecs h self)) \<le> length (data (vecs h vec))"
    and eq: "\<forall>i < length (data (vecs h self)).
               len (data (vecs h vec) ! i) = len (data (vecs h self) ! i)"
    and ap: "\<forall>i < length (data (vecs h self)). \<forall>j < length (data (vecs h self)). i \<noteq> j \<longrightarrow>
               \<not> overlap (data (vecs h self) ! i) (data (vecs h self) ! j)
             \<and> \<not> overlap (data (vecs h self) ! i) (data (vecs h vec) ! j)"
    by (simp_all add: same_lengths_def sets_apart_def)
  from add_scal_vec_prefix[OF n eq ap order_refl, of val]
  obtain h' where "add_scal_vec h self val vec = Inr h'" "vecs h' = vecs h"
    "\<forall>iset < length (data (vecs h self)).
        contents h' (data (vecs h self) ! iset)
          = map2 (\<lambda>x y. x * (val * y)) (contents h (data (vecs h self) ! iset))
                                          (contents h (data (vecs h vec) ! iset))"
    unfolding add_scal_vec_def by blast
  then have "\<exists>h'. add_scal_vec h self val vec = Inr h'
            \<and> data (vecs h' self) = data (vecs h self)
            \<and> (\<forall>iset < length (data (vecs h self)).
                  contents h' (data (vecs h self) ! iset)
                    = map2 (\<lambda>x y. x * (val * y)) (contents h (data (vecs h self) ! iset))
                                                    (contents h (data (vecs h vec) ! iset)))"
    by auto
  moreover have "buffer_after (add_scal_vec (stores [[2, 5]] [[3, 1]]) 0 4 1) 0 0
                   = Inr [2 * (4 * 3), 5 * (4 * 1)]"
    by (simp add: add_scal_vec_def add_scal_vec_step_def imul_def eval_defs upt_rec)
  ultimately show ?thesis by simp
qed

text \<open>
  Two vectors of two sets each: the second buffer \<open>[7]\<close> becomes \<open>[7 * (4 * 2)]\<close>.
\<close>

theorem add_scal_vec_multiplies_witness:
  "same_lengths (data (vecs (stores [[2, 5], [7]] [[3, 1], [2]]) 0))
                (data (vecs (stores [[2, 5], [7]] [[3, 1], [2]]) 1))
   \<and> sets_apart (data (vecs (stores [[2, 5], [7]] [[3, 1], [2]]) 0))
                (data (vecs (stores [[2, 5], [7]] [[3, 1], [2]]) 1))
   \<and> buffer_after (add_scal_vec (stores [[2, 5], [7]] [[3, 1], [2]]) 0 4 1) 0 1 = Inr [7 * (4 * 2)]"
proof -
  let ?h = "stores [[2, 5], [7]] [[3, 1], [2]]"
  have sd: "data (vecs ?h 0) = [\<lparr>base = 0, off = 0, len = 2\<rparr>, \<lparr>base = 1, off = 0, len = 1\<rparr>]"
    and vd: "data (vecs ?h 1) = [\<lparr>base = 2, off = 0, len = 2\<rparr>, \<lparr>base = 3, off = 0, len = 1\<rparr>]"
    by (simp_all add: stores_def buffers_def)
  have a: "same_lengths (data (vecs ?h 0)) (data (vecs ?h 1))"
    unfolding sd vd by (simp add: same_lengths_def less_Suc_eq)
  have b: "sets_apart (data (vecs ?h 0)) (data (vecs ?h 1))"
    unfolding sd vd by (simp add: sets_apart_def less_Suc_eq overlap_def)
  have v: "contents ?h \<lparr>base = 1, off = 0, len = 1\<rparr> = [7]"
    "contents ?h \<lparr>base = 3, off = 0, len = 1\<rparr> = [2]"
    by (simp_all add: contents_def peek_def cell_def stores_def)
  from add_scal_vec_multiplies[OF a b, of 4]
  obtain h' where r: "add_scal_vec ?h 0 4 1 = Inr h'" and d: "data (vecs h' 0) = data (vecs ?h 0)"
    and e: "\<forall>iset < length (data (vecs ?h 0)).
              contents h' (data (vecs ?h 0) ! iset)
                = map2 (\<lambda>x y. x * (4 * y)) (contents ?h (data (vecs ?h 0) ! iset))
                                              (contents ?h (data (vecs ?h 1) ! iset))"
    by blast
  have "1 < length (data (vecs ?h 0))"
    unfolding sd by simp
  from e[rule_format, OF this] have "contents h' (data (vecs ?h 0) ! 1) = [7 * (4 * 2)]"
    unfolding sd vd using v by simp
  then have "buffer_after (add_scal_vec ?h 0 4 1) 0 1 = Inr [7 * (4 * 2)]"
    using r d by (simp add: buffer_after_def)
  with a b show ?thesis by blast
qed

subsection \<open>The norm\<close>






subsection \<open>Copying the buffers\<close>

text \<open>The loop of \<open>clone_data\<close> after the first \<open>k\<close> sets.\<close>

lemma clone_prefix:
  assumes al: "\<forall>a \<in> set (data (vecs h self)). base a < nxt h"
    and k: "k \<le> length (data (vecs h self))"
  shows "nxt (fold (clone_step self) [0..<k] h) = nxt h + k
    \<and> (\<forall>b p. b < nxt h \<longrightarrow> mem (fold (clone_step self) [0..<k] h) (b, p) = mem h (b, p))
    \<and> data (vecs (fold (clone_step self) [0..<k] h) self)
         = map (\<lambda>i. \<lparr>base = nxt h + i, off = 0, len = len (data (vecs h self) ! i)\<rparr>) [0..<k]
           @ drop k (data (vecs h self))
    \<and> (\<forall>i < k. \<forall>p < len (data (vecs h self) ! i).
          mem (fold (clone_step self) [0..<k] h) (nxt h + i, p)
            = mem h (cell (data (vecs h self) ! i) p))"
  using k
proof (induction k)
  case 0
  then show ?case by simp
next
  case (Suc k)
  let ?d = "data (vecs h self)"
  let ?hk = "fold (clone_step self) [0..<k] h"
  let ?new = "\<lambda>i. \<lparr>base = nxt h + i, off = 0, len = len (?d ! i)\<rparr>"
  from Suc.prems have kl: "k < length ?d" by simp
  with Suc.IH have nx: "nxt ?hk = nxt h + k"
    and old: "\<And>b p. b < nxt h \<Longrightarrow> mem ?hk (b, p) = mem h (b, p)"
    and dk: "data (vecs ?hk self) = map ?new [0..<k] @ drop k ?d"
    and cp: "\<And>i p. i < k \<Longrightarrow> p < len (?d ! i) \<Longrightarrow> mem ?hk (nxt h + i, p) = mem h (cell (?d ! i) p)"
    by auto
  have cur: "data (vecs ?hk self) ! k = ?d ! k"
    using kl by (simp add: dk nth_append)
  have bk: "base (?d ! k) < nxt h"
    using al kl by simp
  let ?h' = "clone_step self k ?hk"
  have run: "fold (clone_step self) [0..<Suc k] h = ?h'"
    by simp
  have m: "mem ?h' (b, p) = (if b = nxt h + k \<and> p < len (?d ! k)
                              then mem ?hk (cell (?d ! k) p) else mem ?hk (b, p))" for b p
    by (simp add: clone_step_def np_array_def Let_def cur nx)
  have 1: "nxt ?h' = nxt h + Suc k"
    by (simp add: clone_step_def np_array_def Let_def nx)
  have 2: "mem ?h' (b, p) = mem h (b, p)" if "b < nxt h" for b p
    using that by (simp add: m old)
  have "data (vecs ?h' self) = (data (vecs ?hk self))[k := ?new k]"
    by (simp add: clone_step_def np_array_def Let_def cur nx)
  also have "\<dots> = map ?new [0..<k] @ (drop k ?d)[0 := ?new k]"
    by (simp add: dk list_update_append)
  also have "(drop k ?d)[0 := ?new k] = ?new k # drop (Suc k) ?d"
    using kl by (simp add: Cons_nth_drop_Suc[symmetric])
  finally have 3: "data (vecs ?h' self) = map ?new [0..<Suc k] @ drop (Suc k) ?d"
    by simp
  have 4: "mem ?h' (nxt h + i, p) = mem h (cell (?d ! i) p)"
    if "i < Suc k" "p < len (?d ! i)" for i p
  proof (cases "i = k")
    case True
    with that have "mem ?h' (nxt h + i, p) = mem ?hk (cell (?d ! k) p)"
      by (simp add: m)
    also have "\<dots> = mem h (cell (?d ! k) p)"
      using bk by (simp add: cell_def old)
    finally show ?thesis using True by simp
  next
    case False
    with that show ?thesis by (simp add: m cp)
  qed
  from 1 2 3 4 show ?case unfolding run by blast
qed


text \<open>
  Claim C8. \<^verbatim>\<open>_clone_data\<close> (the \<open>duplicate_buffers\<close> of the specification) replaces
  every buffer of the vector by an independent copy of its contents. When the buffers
  of the vector are allocated arrays, the vector has as many buffers after the call as
  before, each with the contents of the buffer it replaces; the call changes no array
  that existed before it; and whatever is then written into the new buffers, any heap
  that differs from the result only inside them, shows every array that existed before
  the call, hence every view of the original store, with the contents it had.
\<close>

theorem clone_data_independent:
  assumes "allocated h (data (vecs h self))"
  shows "length (data (vecs (clone_data h self) self)) = length (data (vecs h self))
    \<and> (\<forall>iset < length (data (vecs h self)).
          contents (clone_data h self) (data (vecs (clone_data h self) self) ! iset)
            = contents h (data (vecs h self) ! iset))
    \<and> (\<forall>a. base a < nxt h \<longrightarrow> contents (clone_data h self) a = contents h a)
    \<and> (\<forall>h'' a. base a < nxt h
          \<and> (\<forall>c. c \<notin> store_cells (data (vecs (clone_data h self) self))
                 \<longrightarrow> mem h'' c = mem (clone_data h self) c)
          \<longrightarrow> contents h'' a = contents h a)"
proof -
  let ?d = "data (vecs h self)"
  let ?h' = "clone_data h self"
  let ?new = "\<lambda>i. \<lparr>base = nxt h + i, off = 0, len = len (?d ! i)\<rparr>"
  note P = clone_prefix[OF assms[unfolded allocated_def] order_refl, folded clone_data_def]
  have old: "mem ?h' (b, p) = mem h (b, p)" if "b < nxt h" for b p
    using P that by blast
  have d': "data (vecs ?h' self) = map ?new [0..<length ?d]"
    using P by simp
  have cp: "mem ?h' (nxt h + i, p) = mem h (cell (?d ! i) p)"
    if "i < length ?d" "p < len (?d ! i)" for i p
    using P that by blast
  have 1: "length (data (vecs ?h' self)) = length ?d"
    by (simp add: d')
  have 2: "contents ?h' (data (vecs ?h' self) ! iset) = contents h (?d ! iset)"
    if "iset < length ?d" for iset
    using that by (intro nth_equalityI) (simp_all add: d' contents_def peek_def cp cell_def[of "?new iset"])
  have 3: "contents ?h' a = contents h a" if "base a < nxt h" for a
    using that by (intro contents_cong) (simp add: cell_def old)
  have fresh: "c \<notin> store_cells (data (vecs ?h' self))" if "fst c < nxt h" for c
    using that by (auto simp: store_cells_def d' cell_def)
  have 4: "contents h'' a = contents h a"
    if "base a < nxt h"
      and "\<forall>c. c \<notin> store_cells (data (vecs ?h' self)) \<longrightarrow> mem h'' c = mem ?h' c" for h'' a
  proof -
    have "contents h'' a = contents ?h' a"
      using that fresh by (intro contents_cong) (simp add: cell_def)
    with 3[OF that(1)] show ?thesis by simp
  qed
  from 1 2 3 4 show ?thesis by blast
qed

text \<open>
  The sub-vector whose buffer is a view on the last two elements of \<open>[1, 2, 3]\<close>. Before
  the call, a write into its buffer shows in the original; after the call its buffer is
  a new array holding \<open>[2, 3]\<close>, and the same write leaves the original as it was.
\<close>

theorem clone_data_independent_witness:
  "allocated sub_vector (data (vecs sub_vector 1))
   \<and> contents (poke sub_vector (data (vecs sub_vector 1) ! 0) 0 99) \<lparr>base = 0, off = 0, len = 3\<rparr>
       = [1, 99, 3]
   \<and> data (vecs (clone_data sub_vector 1) 1) = [\<lparr>base = 1, off = 0, len = 2\<rparr>]
   \<and> contents (clone_data sub_vector 1) (data (vecs (clone_data sub_vector 1) 1) ! 0) = [2, 3]
   \<and> contents (poke (clone_data sub_vector 1) (data (vecs (clone_data sub_vector 1) 1) ! 0) 0 99)
        (data (vecs (clone_data sub_vector 1) 1) ! 0) = [99, 3]
   \<and> contents (poke (clone_data sub_vector 1) (data (vecs (clone_data sub_vector 1) 1) ! 0) 0 99)
        \<lparr>base = 0, off = 0, len = 3\<rparr> = [1, 2, 3]"
proof -
  let ?h' = "clone_data sub_vector 1"
  let ?g = "\<lparr>base = 0, off = 0, len = 3\<rparr>"
  have sd: "data (vecs sub_vector 1) = [\<lparr>base = 0, off = 1, len = 2\<rparr>]"
    and nx: "nxt sub_vector = 1"
    by (simp_all add: sub_vector_def stores_def)
  have a: "allocated sub_vector (data (vecs sub_vector 1))"
    unfolding allocated_def sd nx by simp
  have g: "contents sub_vector ?g = [1, 2, 3]"
    and s: "contents sub_vector \<lparr>base = 0, off = 1, len = 2\<rparr> = [2, 3]"
    by (simp_all add: contents_def peek_def cell_def sub_vector_def stores_def upt_rec)
  have before: "contents (poke sub_vector (data (vecs sub_vector 1) ! 0) 0 99) ?g = [1, 99, 3]"
    unfolding sd by (simp add: contents_def peek_def cell_def sub_vector_def stores_def upt_rec)
  have d': "data (vecs ?h' 1) = [\<lparr>base = 1, off = 0, len = 2\<rparr>]"
    by (simp add: clone_data_def clone_step_def np_array_def Let_def sub_vector_def stores_def)
  note C = clone_data_independent[OF a]
  have c1: "contents ?h' (data (vecs ?h' 1) ! 0) = [2, 3]"
    using C s unfolding sd by simp
  let ?h'' = "poke ?h' (data (vecs ?h' 1) ! 0) 0 99"
  have confined: "\<forall>c. c \<notin> store_cells (data (vecs ?h' 1)) \<longrightarrow> mem ?h'' c = mem ?h' c"
    unfolding d' by (auto simp: store_cells_def cell_def)
  have c2: "contents ?h'' ?g = [1, 2, 3]"
    using C confined g nx by simp
  have c3: "contents ?h'' (data (vecs ?h' 1) ! 0) = [99, 3]"
    using c1 unfolding d' by (simp add: contents_def peek_def cell_def upt_rec)
  from a before d' c1 c2 c3 show ?thesis by blast
qed

subsection \<open>Extracting views\<close>











end
